theory Spec2Isabelle
  imports Main "HOL-Library.Sublist"
begin

section \<open>Data model of gol.py\<close>

text \<open>
  \<^verbatim>\<open>Point = namedtuple("Point", ["x", "y"])\<close> and
  \<^verbatim>\<open>Cell = namedtuple("Cell", ["pos", "gen"])\<close>. Python integers are unbounded, so both
  coordinates and the generation number are \<open>int\<close>.
\<close>

datatype point = Point (point_x: int) (point_y: int)

datatype cell = Cell (pos: point) (gen: int)

text \<open>The only exception the simulation code can raise: \<open>%\<close> with a zero divisor.\<close>

datatype error = ZeroDivisionError

text \<open>
  The dict \<open>cells\<close> (and \<open>cells_next\<close>) is iterated with \<open>.values()\<close>, in insertion
  order, so it is an association list in insertion order. The dict \<open>proc\<close> is only ever
  looked up and written, never iterated; it is the list of its writes, newest first,
  read with \<open>map_of\<close> (the newest write of a key wins).
\<close>

type_synonym cells = "(point \<times> cell) list"

type_synonym proc = "(point \<times> bool) list"

definition in_dict :: "'k \<Rightarrow> ('k \<times> 'v) list \<Rightarrow> bool" where
  "in_dict k d = (map_of d k \<noteq> None)"

text \<open>
  \<open>d[k] = v\<close> on an insertion-ordered dict: an existing key keeps its place and gets
  the new value, a new key is appended.
\<close>

fun dict_set :: "'k \<Rightarrow> 'v \<Rightarrow> ('k \<times> 'v) list \<Rightarrow> ('k \<times> 'v) list" where
  "dict_set k v [] = [(k, v)]"
| "dict_set k v ((k', v') # kvs) =
     (if k' = k then (k', v) # kvs else (k', v') # dict_set k v kvs)"

definition dirs :: "(int \<times> int) list" where
  "dirs = [(-1,-1), (-1,0), (-1,1), (0,-1), (0,1), (1,-1), (1,0), (1,1)]"

section \<open>The simulation functions\<close>

text \<open>
  The globals \<open>cols\<close> and \<open>rows\<close> are set once by \<open>main\<close> and read by
  \<open>align_point\<close>; they are parameters here. Python's \<open>%\<close> is floored, as \<open>mod\<close> on
  \<open>int\<close> is, but raises on a zero divisor where HOL returns the dividend.
\<close>

definition align_point :: "int \<Rightarrow> int \<Rightarrow> point \<Rightarrow> error + point" where
  "align_point cols rows point =
     (if cols - 1 = 0 then Inl ZeroDivisionError
      else if rows - 1 = 0 then Inl ZeroDivisionError
      else Inr (Point (point_x point mod (cols - 1)) (point_y point mod (rows - 1))))"

text \<open>\<^verbatim>\<open>Point(*tuple(map(lambda x, y: x + y, point, d)))\<close>\<close>

definition add_dir :: "point \<Rightarrow> int \<times> int \<Rightarrow> point" where
  "add_dir point d = Point (point_x point + fst d) (point_y point + snd d)"

fun num_cell_neighbors_loop ::
  "int \<Rightarrow> int \<Rightarrow> point \<Rightarrow> cells \<Rightarrow> (int \<times> int) list \<Rightarrow> int \<Rightarrow> error + int" where
  "num_cell_neighbors_loop cols rows point cells [] n = Inr n"
| "num_cell_neighbors_loop cols rows point cells (d # ds) n =
     (case align_point cols rows (add_dir point d) of
        Inl e \<Rightarrow> Inl e
      | Inr np \<Rightarrow>
          num_cell_neighbors_loop cols rows point cells ds
            (n + (if in_dict np cells then 1 else 0)))"

definition num_cell_neighbors :: "int \<Rightarrow> int \<Rightarrow> point \<Rightarrow> cells \<Rightarrow> error + int" where
  "num_cell_neighbors cols rows point cells =
     num_cell_neighbors_loop cols rows point cells dirs 0"

text \<open>
  The loop of \<open>check_neighbors\<close> over the directions still to visit; its state is
  \<open>(n, births, proc)\<close>. \<open>proc\<close> is mutated by the source and so returned.
\<close>

fun check_neighbors_loop ::
  "int \<Rightarrow> int \<Rightarrow> cell \<Rightarrow> cells \<Rightarrow> (int \<times> int) list \<Rightarrow> int \<times> point list \<times> proc
     \<Rightarrow> error + (int \<times> point list \<times> proc)" where
  "check_neighbors_loop cols rows cell cells [] st = Inr st"
| "check_neighbors_loop cols rows cell cells (d # ds) (n, births, proc) =
     (case align_point cols rows (add_dir (pos cell) d) of
        Inl e \<Rightarrow> Inl e
      | Inr np \<Rightarrow>
          (case map_of proc np of
             Some b \<Rightarrow>
               check_neighbors_loop cols rows cell cells ds
                 (n + (if b then 1 else 0), births, proc)
           | None \<Rightarrow>
               (if in_dict np cells then
                  check_neighbors_loop cols rows cell cells ds
                    (n + 1, births, (np, True) # proc)
                else
                  (case num_cell_neighbors cols rows np cells of
                     Inl e \<Rightarrow> Inl e
                   | Inr m \<Rightarrow>
                       check_neighbors_loop cols rows cell cells ds
                         (n, if m = 3 then births @ [np] else births,
                          (np, False) # proc)))))"

definition check_neighbors ::
  "int \<Rightarrow> int \<Rightarrow> cell \<Rightarrow> cells \<Rightarrow> proc \<Rightarrow> error + (int \<times> point list \<times> proc)" where
  "check_neighbors cols rows cell cells proc =
     check_neighbors_loop cols rows cell cells dirs (0, [], proc)"

text \<open>\<^verbatim>\<open>for pos in births: cells_next[pos] = Cell(pos, gen + 1)\<close>\<close>

fun add_births :: "int \<Rightarrow> point list \<Rightarrow> cells \<Rightarrow> cells" where
  "add_births generation [] cells_next = cells_next"
| "add_births generation (p # ps) cells_next =
     add_births generation ps (dict_set p (Cell p (generation + 1)) cells_next)"

text \<open>
  The loop of \<open>compute_life\<close> over \<open>cells.values()\<close> still to visit; its state is
  \<open>(proc, cells_next)\<close>.
\<close>

fun compute_life_loop ::
  "int \<Rightarrow> int \<Rightarrow> cells \<Rightarrow> int \<Rightarrow> cells \<Rightarrow> proc \<times> cells \<Rightarrow> error + (proc \<times> cells)" where
  "compute_life_loop cols rows cells generation [] st = Inr st"
| "compute_life_loop cols rows cells generation ((k, cell) # cs) (proc, cells_next) =
     (case check_neighbors cols rows cell cells proc of
        Inl e \<Rightarrow> Inl e
      | Inr (n, births, proc') \<Rightarrow>
          compute_life_loop cols rows cells generation cs
            (proc',
             add_births generation births
               (if n = 2 \<or> n = 3 then dict_set (pos cell) cell cells_next
                else cells_next)))"

definition compute_life :: "int \<Rightarrow> int \<Rightarrow> cells \<Rightarrow> int \<Rightarrow> error + cells" where
  "compute_life cols rows cells generation =
     (case compute_life_loop cols rows cells generation cells ([], []) of
        Inl e \<Rightarrow> Inl e
      | Inr (proc, cells_next) \<Rightarrow> Inr cells_next)"

section \<open>Notions used to state the properties\<close>

text \<open>
  A population as \<open>main\<close> builds it and \<open>compute_life\<close> rebuilds it: a dict (no key
  twice) whose every cell is stored under its own position.
\<close>

definition wf_cells :: "cells \<Rightarrow> bool" where
  "wf_cells cells = (distinct (map fst cells) \<and> list_all (\<lambda>(k, c). pos c = k) cells)"

text \<open>The neighbour of a point in one direction, when no division by zero occurs.\<close>

definition neighbor :: "int \<Rightarrow> int \<Rightarrow> point \<Rightarrow> int \<times> int \<Rightarrow> point" where
  "neighbor cols rows p d =
     Point ((point_x p + fst d) mod (cols - 1)) ((point_y p + snd d) mod (rows - 1))"

definition occupied :: "int \<Rightarrow> int \<Rightarrow> cells \<Rightarrow> point \<Rightarrow> (int \<times> int) list \<Rightarrow> int" where
  "occupied cols rows cells p ds =
     int (length (filter (\<lambda>d. in_dict (neighbor cols rows p d) cells) ds))"

text \<open>
  The cache invariant: no position was written twice, and every written boolean says
  whether the position is a key of the input population.
\<close>

definition cache_inv :: "cells \<Rightarrow> proc \<Rightarrow> bool" where
  "cache_inv cells proc =
     (distinct (map fst proc) \<and> list_all (\<lambda>(p, b). b = in_dict p cells) proc)"

text \<open>The positions next to the cells of a part of the population.\<close>

definition vicinity :: "int \<Rightarrow> int \<Rightarrow> (point \<times> cell) set \<Rightarrow> point set" where
  "vicinity cols rows S = {neighbor cols rows k d | k c d. (k, c) \<in> S \<and> d \<in> set dirs}"

text \<open>
  What \<open>cells_next\<close> holds once the cells in \<open>S\<close> have been visited.
\<close>

definition next_gen ::
  "int \<Rightarrow> int \<Rightarrow> cells \<Rightarrow> int \<Rightarrow> (point \<times> cell) set \<Rightarrow> point \<Rightarrow> cell option" where
  "next_gen cols rows cells generation S p =
     (case map_of cells p of
        Some c \<Rightarrow>
          if (p, c) \<in> S \<and> occupied cols rows cells p dirs \<in> {2, 3} then Some c else None
      | None \<Rightarrow>
          if p \<in> vicinity cols rows S \<and> occupied cols rows cells p dirs = 3
          then Some (Cell p (generation + 1)) else None)"

text \<open>
  The births one visit of \<open>check_neighbors\<close> reports: the empty neighbours with
  three occupied neighbours that the cache does not hold yet.
\<close>

definition fresh_births :: "int \<Rightarrow> int \<Rightarrow> cells \<Rightarrow> point \<Rightarrow> (int \<times> int) list \<Rightarrow> proc \<Rightarrow> point set" where
  "fresh_births cols rows cells p ds proc =
     {np \<in> neighbor cols rows p ` set ds.
        np \<notin> fst ` set proc \<and> \<not> in_dict np cells \<and> occupied cols rows cells np dirs = 3}"

text \<open>The loop invariant of \<open>compute_life\<close>, after the cells in \<open>S\<close>.\<close>

definition loop_inv ::
  "int \<Rightarrow> int \<Rightarrow> cells \<Rightarrow> int \<Rightarrow> (point \<times> cell) set \<Rightarrow> proc \<Rightarrow> cells \<Rightarrow> bool" where
  "loop_inv cols rows cells generation S proc cells_next =
     (cache_inv cells proc \<and> fst ` set proc = vicinity cols rows S
      \<and> distinct (map fst cells_next)
      \<and> map_of cells_next = next_gen cols rows cells generation S)"

text \<open>
  The occupied-neighbour count in the spec's words, not the code's: the 8 offsets of the
  Moore neighbourhood, each reduced into a torus of width \<open>W\<close> and height \<open>H\<close> by
  the mathematical modulo, counted when the resulting position is a key of the
  population. It is the measure against which \<open>compute_life\<close> is compared.
\<close>

definition moore_offsets :: "(int \<times> int) list" where
  "moore_offsets = [(dx, dy). dx \<leftarrow> [- 1, 0, 1], dy \<leftarrow> [- 1, 0, 1], (dx, dy) \<noteq> (0, 0)]"

definition toroidal_count :: "int \<Rightarrow> int \<Rightarrow> cells \<Rightarrow> point \<Rightarrow> int" where
  "toroidal_count W H cells p =
     int (length (filter
       (\<lambda>(dx, dy). in_dict (Point ((point_x p + dx) mod W) ((point_y p + dy) mod H)) cells)
       moore_offsets))"

text \<open>
  The horizontal blinker at \<open>(0,0), (1,0), (2,0)\<close>, its cells alive since the
  generations \<open>g0\<close>, \<open>g1\<close> and \<open>g2\<close>.
\<close>

definition blinker :: "int \<Rightarrow> int \<Rightarrow> int \<Rightarrow> cells" where
  "blinker g0 g1 g2 =
     [(Point 0 0, Cell (Point 0 0) g0), (Point 1 0, Cell (Point 1 0) g1),
      (Point 2 0, Cell (Point 2 0) g2)]"

section \<open>Dictionaries and the pure parts of the functions\<close>

lemma align_point_ok:
  "cols \<noteq> 1 \<Longrightarrow> rows \<noteq> 1 \<Longrightarrow> align_point cols rows (add_dir p d) = Inr (neighbor cols rows p d)"
  by (simp add: align_point_def neighbor_def add_dir_def)

lemma num_cell_neighbors_loop_ok:
  "cols \<noteq> 1 \<Longrightarrow> rows \<noteq> 1 \<Longrightarrow>
   num_cell_neighbors_loop cols rows p cells ds n = Inr (n + occupied cols rows cells p ds)"
  by (induction ds arbitrary: n) (simp_all add: align_point_ok occupied_def)

lemma num_cell_neighbors_ok:
  "cols \<noteq> 1 \<Longrightarrow> rows \<noteq> 1 \<Longrightarrow>
   num_cell_neighbors cols rows p cells = Inr (occupied cols rows cells p dirs)"
  by (simp add: num_cell_neighbors_def num_cell_neighbors_loop_ok)

lemma in_dict_iff: "in_dict k d \<longleftrightarrow> k \<in> fst ` set d"
  by (simp add: in_dict_def map_of_eq_None_iff)

lemma map_of_dict_set: "map_of (dict_set k v d) = (map_of d)(k \<mapsto> v)"
  by (induction d) (auto simp: fun_eq_iff)

lemma keys_dict_set: "fst ` set (dict_set k v d) = insert k (fst ` set d)"
  by (simp add: dom_map_of_conv_image_fst [symmetric] map_of_dict_set)

lemma distinct_dict_set: "distinct (map fst d) \<Longrightarrow> distinct (map fst (dict_set k v d))"
  by (induction d) (auto simp: keys_dict_set)

lemma map_of_add_births:
  "map_of (add_births g bs out) p =
     (if p \<in> set bs then Some (Cell p (g + 1)) else map_of out p)"
  by (induction bs arbitrary: out) (auto simp: map_of_dict_set)

lemma distinct_add_births:
  "distinct (map fst out) \<Longrightarrow> distinct (map fst (add_births g bs out))"
  by (induction bs arbitrary: out) (auto simp: distinct_dict_set)

lemma cache_inv_lookup:
  "cache_inv cells proc \<Longrightarrow> map_of proc p = Some b \<Longrightarrow> b = in_dict p cells"
  by (auto simp: cache_inv_def list_all_iff dest: map_of_SomeD)

lemma cache_inv_Cons:
  "cache_inv cells proc \<Longrightarrow> map_of proc p = None \<Longrightarrow>
   cache_inv cells ((p, in_dict p cells) # proc)"
  by (auto simp: cache_inv_def map_of_eq_None_iff)

section \<open>The loops\<close>

lemma occupied_Cons:
  "occupied cols rows cells p (d # ds) =
     (if in_dict (neighbor cols rows p d) cells then 1 else 0) + occupied cols rows cells p ds"
  by (simp add: occupied_def)

lemma check_neighbors_loop_spec:
  assumes "cols \<noteq> 1" and "rows \<noteq> 1" and "cache_inv cells proc"
  shows "\<exists>n' births' proc'.
           check_neighbors_loop cols rows cell cells ds (n, births, proc) = Inr (n', births', proc')
         \<and> n' = n + occupied cols rows cells (pos cell) ds
         \<and> set births' = set births \<union> fresh_births cols rows cells (pos cell) ds proc
         \<and> cache_inv cells proc'
         \<and> fst ` set proc' = fst ` set proc \<union> neighbor cols rows (pos cell) ` set ds
         \<and> suffix proc proc'"
  using assms(3)
proof (induction ds arbitrary: n births proc)
  case Nil
  then show ?case by (simp add: occupied_def fresh_births_def)
next
  case (Cons d ds)
  let ?np = "neighbor cols rows (pos cell) d"
  note al = align_point_ok [OF assms(1,2)]
  show ?case
  proof (cases "map_of proc ?np")
    case (Some b)
    then have b: "b = in_dict ?np cells"
      using Cons.prems by (rule cache_inv_lookup [rotated])
    from Some have mem: "?np \<in> fst ` set proc"
      by (metis map_of_eq_None_iff option.distinct(1))
    from Cons.IH [OF Cons.prems, of "n + (if b then 1 else 0)" births]
    obtain n' births' proc' where
      r: "check_neighbors_loop cols rows cell cells ds (n + (if b then 1 else 0), births, proc)
            = Inr (n', births', proc')"
      and n': "n' = n + (if b then 1 else 0) + occupied cols rows cells (pos cell) ds"
      and bs: "set births' = set births \<union> fresh_births cols rows cells (pos cell) ds proc"
      and inv: "cache_inv cells proc'"
      and ks: "fst ` set proc' = fst ` set proc \<union> neighbor cols rows (pos cell) ` set ds"
      and suf: "suffix proc proc'"
      by (elim exE conjE) (rule that)
    have fb: "fresh_births cols rows cells (pos cell) (d # ds) proc
            = fresh_births cols rows cells (pos cell) ds proc"
      using mem by (auto simp: fresh_births_def)
    have run: "check_neighbors_loop cols rows cell cells (d # ds) (n, births, proc)
                 = Inr (n', births', proc')"
      using r Some by (simp add: al)
    have ks': "fst ` set proc' = fst ` set proc \<union> neighbor cols rows (pos cell) ` set (d # ds)"
      using ks mem by auto
    have n'': "n' = n + occupied cols rows cells (pos cell) (d # ds)"
      using n' b by (simp add: occupied_Cons)
    from run n'' bs fb inv ks' suf show ?thesis
      by simp
  next
    case None
    then have nmem: "?np \<notin> fst ` set proc"
      by (simp add: map_of_eq_None_iff)
    let ?proc1 = "(?np, in_dict ?np cells) # proc"
    have inv1: "cache_inv cells ?proc1"
      using Cons.prems None by (rule cache_inv_Cons)
    let ?births1 = "if \<not> in_dict ?np cells \<and> occupied cols rows cells ?np dirs = 3
                    then births @ [?np] else births"
    let ?n1 = "n + (if in_dict ?np cells then 1 else 0)"
    from Cons.IH [OF inv1, of ?n1 ?births1]
    obtain n' births' proc' where
      r: "check_neighbors_loop cols rows cell cells ds (?n1, ?births1, ?proc1)
            = Inr (n', births', proc')"
      and n': "n' = ?n1 + occupied cols rows cells (pos cell) ds"
      and bs: "set births' = set ?births1 \<union> fresh_births cols rows cells (pos cell) ds ?proc1"
      and inv: "cache_inv cells proc'"
      and ks: "fst ` set proc' = fst ` set ?proc1 \<union> neighbor cols rows (pos cell) ` set ds"
      and suf: "suffix ?proc1 proc'"
      by (elim exE conjE) (rule that)
    have run: "check_neighbors_loop cols rows cell cells (d # ds) (n, births, proc)
                 = Inr (n', births', proc')"
      using r None
      by (cases "in_dict ?np cells"; cases "occupied cols rows cells ?np dirs = 3")
         (simp_all add: al num_cell_neighbors_ok [OF assms(1,2)])
    have fb: "set ?births1 \<union> fresh_births cols rows cells (pos cell) ds ?proc1
                = set births \<union> fresh_births cols rows cells (pos cell) (d # ds) proc"
      using nmem by (auto simp: fresh_births_def)
    have suf': "suffix proc proc'"
      using suf by (rule suffix_ConsD)
    have ks': "fst ` set proc' = fst ` set proc \<union> neighbor cols rows (pos cell) ` set (d # ds)"
      using ks by auto
    have n'': "n' = n + occupied cols rows cells (pos cell) (d # ds)"
      using n' by (simp add: occupied_Cons)
    have bs': "set births' = set births \<union> fresh_births cols rows cells (pos cell) (d # ds) proc"
      using bs fb by simp
    from run n'' bs' inv ks' suf' show ?thesis
      by simp
  qed
qed

lemma check_neighbors_spec:
  assumes "cols \<noteq> 1" and "rows \<noteq> 1" and "cache_inv cells proc"
  shows "\<exists>births proc'.
           check_neighbors cols rows cell cells proc
             = Inr (occupied cols rows cells (pos cell) dirs, births, proc')
         \<and> set births = fresh_births cols rows cells (pos cell) dirs proc
         \<and> cache_inv cells proc'
         \<and> fst ` set proc' = fst ` set proc \<union> neighbor cols rows (pos cell) ` set dirs
         \<and> suffix proc proc'"
  using check_neighbors_loop_spec [OF assms, of cell dirs 0 "[]"]
  by (simp add: check_neighbors_def)

lemma vicinity_insert:
  "vicinity cols rows (insert (k, c) S) = vicinity cols rows S \<union> neighbor cols rows k ` set dirs"
  by (auto simp: vicinity_def)

lemma vicinity_empty: "vicinity cols rows {} = {}"
  by (simp add: vicinity_def)

lemma wf_cells_lookup:
  "wf_cells cells \<Longrightarrow> (k, c) \<in> set cells \<Longrightarrow> map_of cells k = Some c \<and> pos c = k"
  by (auto simp: wf_cells_def list_all_iff)

lemma next_gen_step:
  assumes k: "map_of cells k = Some c"
    and out: "map_of out = next_gen cols rows cells g S"
    and births: "set births = fresh_births cols rows cells k dirs proc"
    and proc: "fst ` set proc = vicinity cols rows S"
  shows "map_of (add_births g births
            (if occupied cols rows cells k dirs = 2 \<or> occupied cols rows cells k dirs = 3
             then dict_set k c out else out)) p
         = next_gen cols rows cells g (insert (k, c) S) p"
proof (cases "map_of cells p")
  case None
  then have "p \<noteq> k" using k by auto
  with None show ?thesis
    by (auto simp: map_of_add_births map_of_dict_set out births proc next_gen_def
        fresh_births_def vicinity_insert in_dict_def)
next
  case (Some c')
  then have "p \<notin> set births"
    by (simp add: births fresh_births_def in_dict_def)
  with Some k show ?thesis
    by (auto simp: map_of_add_births map_of_dict_set out next_gen_def)
qed


lemma loop_inv_step:
  assumes dims: "cols \<noteq> 1" "rows \<noteq> 1" and wf: "wf_cells cells"
    and mem: "(k, c) \<in> set cells"
    and inv: "loop_inv cols rows cells g S proc out"
  shows "\<exists>n births proc'.
           check_neighbors cols rows c cells proc = Inr (n, births, proc')
         \<and> loop_inv cols rows cells g (insert (k, c) S) proc'
              (add_births g births (if n = 2 \<or> n = 3 then dict_set (pos c) c out else out))
         \<and> suffix proc proc'"
proof -
  from wf mem have k: "map_of cells k = Some c" and pk: "pos c = k"
    by (simp_all add: wf_cells_lookup)
  from inv have ci: "cache_inv cells proc" and ks: "fst ` set proc = vicinity cols rows S"
    and dist: "distinct (map fst out)" and out: "map_of out = next_gen cols rows cells g S"
    by (simp_all add: loop_inv_def)
  from check_neighbors_spec [OF dims ci, of c]
  obtain births proc' where
    run: "check_neighbors cols rows c cells proc
            = Inr (occupied cols rows cells (pos c) dirs, births, proc')"
    and bs: "set births = fresh_births cols rows cells (pos c) dirs proc"
    and ci': "cache_inv cells proc'"
    and ks': "fst ` set proc' = fst ` set proc \<union> neighbor cols rows (pos c) ` set dirs"
    and suf: "suffix proc proc'"
    by (elim exE conjE) (rule that)
  let ?n = "occupied cols rows cells k dirs"
  let ?out = "add_births g births (if ?n = 2 \<or> ?n = 3 then dict_set k c out else out)"
  have m: "map_of ?out = next_gen cols rows cells g (insert (k, c) S)"
    using next_gen_step [OF k out bs [unfolded pk] ks] by (rule ext)
  have d: "distinct (map fst ?out)"
    using dist by (simp add: distinct_add_births distinct_dict_set)
  have v: "fst ` set proc' = vicinity cols rows (insert (k, c) S)"
    using ks' ks pk by (simp add: vicinity_insert)
  have "loop_inv cols rows cells g (insert (k, c) S) proc' ?out"
    using ci' v d m unfolding loop_inv_def by blast
  with run suf pk show ?thesis by (auto split: if_splits)
qed

lemma compute_life_loop_spec:
  assumes dims: "cols \<noteq> 1" "rows \<noteq> 1" and wf: "wf_cells cells"
  shows "set cs \<subseteq> set cells \<Longrightarrow> loop_inv cols rows cells g S proc out \<Longrightarrow>
         \<exists>proc' out'.
           compute_life_loop cols rows cells g cs (proc, out) = Inr (proc', out')
         \<and> loop_inv cols rows cells g (S \<union> set cs) proc' out'
         \<and> suffix proc proc'"
proof (induction cs arbitrary: S proc out)
  case Nil
  then show ?case by simp
next
  case (Cons kc cs)
  obtain k c where kc: "kc = (k, c)" by (cases kc)
  with Cons.prems have mem: "(k, c) \<in> set cells" and sub: "set cs \<subseteq> set cells"
    by simp_all
  from loop_inv_step [OF dims wf mem Cons.prems(2)]
  obtain n births proc1 where
    run: "check_neighbors cols rows c cells proc = Inr (n, births, proc1)"
    and inv1: "loop_inv cols rows cells g (insert (k, c) S) proc1
                 (add_births g births (if n = 2 \<or> n = 3 then dict_set (pos c) c out else out))"
    and suf1: "suffix proc proc1"
    by (elim exE conjE) (rule that)
  from Cons.IH [OF sub inv1]
  obtain proc' out' where
    rest: "compute_life_loop cols rows cells g cs
             (proc1, add_births g births
                (if n = 2 \<or> n = 3 then dict_set (pos c) c out else out)) = Inr (proc', out')"
    and inv': "loop_inv cols rows cells g (insert (k, c) S \<union> set cs) proc' out'"
    and suf': "suffix proc1 proc'"
    by (elim exE conjE) (rule that)
  have "compute_life_loop cols rows cells g (kc # cs) (proc, out) = Inr (proc', out')"
    using run rest by (simp add: kc)
  moreover have "insert (k, c) S \<union> set cs = S \<union> set (kc # cs)"
    by (simp add: kc)
  moreover have "suffix proc proc'"
    using suf1 suf' by (rule suffix_order.trans)
  ultimately show ?case using inv' by simp
qed

lemma loop_inv_init: "loop_inv cols rows cells g {} [] []"
  by (simp add: loop_inv_def cache_inv_def vicinity_empty next_gen_def fun_eq_iff
      split: option.split)

lemma compute_life_run:
  assumes dims: "cols \<noteq> 1" "rows \<noteq> 1" and wf: "wf_cells cells"
  shows "\<exists>proc out.
           compute_life_loop cols rows cells g cells ([], []) = Inr (proc, out)
         \<and> compute_life cols rows cells g = Inr out
         \<and> cache_inv cells proc
         \<and> fst ` set proc = vicinity cols rows (set cells)
         \<and> distinct (map fst out)
         \<and> map_of out = next_gen cols rows cells g (set cells)"
  using compute_life_loop_spec [OF assms subset_refl loop_inv_init, of g]
  by (auto simp: compute_life_def loop_inv_def)

section \<open>The next generation as a function of the population\<close>

lemma neg_dir_in_dirs: "d \<in> set dirs \<Longrightarrow> (- fst d, - snd d) \<in> set dirs"
proof -
  assume "d \<in> set dirs"
  then consider "d = (-1,-1)" | "d = (-1,0)" | "d = (-1,1)" | "d = (0,-1)"
    | "d = (0,1)" | "d = (1,-1)" | "d = (1,0)" | "d = (1,1)"
    unfolding dirs_def by fastforce
  then show ?thesis
    by cases (simp_all add: dirs_def)
qed

lemma neighbor_back:
  "neighbor cols rows (neighbor cols rows p d) (- fst d, - snd d)
     = Point (point_x p mod (cols - 1)) (point_y p mod (rows - 1))"
  by (simp add: neighbor_def mod_simps)

lemma neighbor_aligned:
  "cols \<noteq> 1 \<Longrightarrow> rows \<noteq> 1 \<Longrightarrow>
   align_point cols rows (neighbor cols rows p d) = Inr (neighbor cols rows p d)"
  by (simp add: align_point_def neighbor_def)

lemma occupied_pos:
  "0 < occupied cols rows cells p ds \<Longrightarrow>
   \<exists>d \<in> set ds. in_dict (neighbor cols rows p d) cells"
  by (auto simp: occupied_def filter_empty_conv)

lemma vicinity_iff:
  assumes dims: "cols \<noteq> 1" "rows \<noteq> 1" and wf: "wf_cells cells"
    and occ: "0 < occupied cols rows cells p dirs"
  shows "p \<in> vicinity cols rows (set cells) \<longleftrightarrow> align_point cols rows p = Inr p"
proof
  assume "p \<in> vicinity cols rows (set cells)"
  then obtain k d where "p = neighbor cols rows k d"
    unfolding vicinity_def by fast
  then show "align_point cols rows p = Inr p"
    by (simp add: neighbor_aligned [OF dims])
next
  assume al: "align_point cols rows p = Inr p"
  from occupied_pos [OF occ] obtain d where d: "d \<in> set dirs"
    and q: "in_dict (neighbor cols rows p d) cells" by (elim bexE) (rule that)
  from q obtain c where mem: "(neighbor cols rows p d, c) \<in> set cells"
    by (auto simp: in_dict_iff)
  from al dims have "Point (point_x p mod (cols - 1)) (point_y p mod (rows - 1)) = p"
    by (simp add: align_point_def)
  then have "neighbor cols rows (neighbor cols rows p d) (- fst d, - snd d) = p"
    by (simp add: neighbor_back)
  with mem neg_dir_in_dirs [OF d]
  have "\<exists>k c d'. p = neighbor cols rows k d' \<and> (k, c) \<in> set cells \<and> d' \<in> set dirs"
    by (intro exI [of _ "neighbor cols rows p d"] exI [of _ c]
        exI [of _ "(- fst d, - snd d)"]) simp
  then show "p \<in> vicinity cols rows (set cells)"
    by (simp add: vicinity_def)
qed

lemma next_gen_final:
  assumes dims: "cols \<noteq> 1" "rows \<noteq> 1" and wf: "wf_cells cells"
  shows "next_gen cols rows cells g (set cells) p =
     (case map_of cells p of
        Some c \<Rightarrow> if occupied cols rows cells p dirs \<in> {2, 3} then Some c else None
      | None \<Rightarrow>
          if align_point cols rows p = Inr p \<and> occupied cols rows cells p dirs = 3
          then Some (Cell p (g + 1)) else None)"
proof (cases "map_of cells p")
  case None
  show ?thesis
  proof (cases "occupied cols rows cells p dirs = 3")
    case True
    then have "0 < occupied cols rows cells p dirs" by simp
    from vicinity_iff [OF dims wf this] None True show ?thesis
      by (simp add: next_gen_def)
  next
    case False
    with None show ?thesis by (simp add: next_gen_def)
  qed
next
  case (Some c)
  then have "(p, c) \<in> set cells" by (rule map_of_SomeD)
  with Some show ?thesis by (simp add: next_gen_def)
qed

lemma compute_life_spec:
  assumes dims: "cols \<noteq> 1" "rows \<noteq> 1" and wf: "wf_cells cells"
  shows "\<exists>out.
           compute_life cols rows cells g = Inr out
         \<and> distinct (map fst out)
         \<and> (\<forall>p. map_of out p =
               (case map_of cells p of
                  Some c \<Rightarrow> if occupied cols rows cells p dirs \<in> {2, 3} then Some c else None
                | None \<Rightarrow>
                    if align_point cols rows p = Inr p \<and> occupied cols rows cells p dirs = 3
                    then Some (Cell p (g + 1)) else None))"
proof -
  from compute_life_run [OF assms, of g]
  obtain proc :: proc and out where run: "compute_life cols rows cells g = Inr out"
    and d: "distinct (map fst out)"
    and m: "map_of out = next_gen cols rows cells g (set cells)"
    by (elim exE conjE) (rule that)
  from m have "\<forall>p. map_of out p = next_gen cols rows cells g (set cells) p"
    by simp
  with run d show ?thesis
    by (simp add: next_gen_final [OF assms])
qed

text \<open>\<open>compute_life\<close> returns a population of the same kind as it takes.\<close>

lemma compute_life_wf:
  assumes dims: "cols \<noteq> 1" "rows \<noteq> 1" and wf: "wf_cells cells"
  shows "\<exists>out. compute_life cols rows cells g = Inr out \<and> wf_cells out"
proof -
  from compute_life_spec [OF assms, of g]
  obtain out where run: "compute_life cols rows cells g = Inr out"
    and d: "distinct (map fst out)"
    and m: "\<forall>p. map_of out p =
               (case map_of cells p of
                  Some c \<Rightarrow> if occupied cols rows cells p dirs \<in> {2, 3} then Some c else None
                | None \<Rightarrow>
                    if align_point cols rows p = Inr p \<and> occupied cols rows cells p dirs = 3
                    then Some (Cell p (g + 1)) else None)"
    by (elim exE conjE) (rule that)
  have "pos c = p" if "(p, c) \<in> set out" for p c
  proof -
    from that d have s: "map_of out p = Some c" by simp
    show ?thesis
    proof (cases "map_of cells p")
      case None
      with s m [rule_format, of p] show ?thesis
        by (auto split: if_splits)
    next
      case (Some c')
      then have "(p, c') \<in> set cells" by (rule map_of_SomeD)
      then have "pos c' = p" using wf by (simp add: wf_cells_lookup)
      with Some s m [rule_format, of p] show ?thesis
        by (auto split: if_splits)
    qed
  qed
  then have "wf_cells out"
    using d by (auto simp: wf_cells_def list_all_iff)
  with run show ?thesis by simp
qed

section \<open>Concrete runs, division by zero, and parts of the loops\<close>

lemma blinker_wf: "wf_cells (blinker g0 g1 g2)"
  by (simp add: blinker_def wf_cells_def)

lemmas eval_defs =
  compute_life_def check_neighbors_def num_cell_neighbors_def dirs_def align_point_def
  add_dir_def in_dict_def blinker_def

lemma blinker_step_6:
  "compute_life 6 6 (blinker g0 g1 g2) g =
     Inr [(Point 1 4, Cell (Point 1 4) (g + 1)), (Point 1 1, Cell (Point 1 1) (g + 1)),
          (Point 1 0, Cell (Point 1 0) g1)]"
  by (simp add: eval_defs)

lemma compute_life_zero_division:
  assumes "cols = 1 \<or> rows = 1" and "cells \<noteq> []"
  shows "compute_life cols rows cells g = Inl ZeroDivisionError"
proof -
  from assms(2) obtain k c cs where "cells = (k, c) # cs"
    by (cases cells) auto
  moreover have "check_neighbors cols rows c cells' proc = Inl ZeroDivisionError" for cells' proc
    using assms(1)
    by (cases "cols = 1") (simp_all add: check_neighbors_def dirs_def align_point_def)
  ultimately show ?thesis
    by (simp add: compute_life_def)
qed

lemma next_gen_cong:
  assumes "map_of cells' = map_of cells" and "set cells' = set cells"
  shows "next_gen cols rows cells' g (set cells') = next_gen cols rows cells g (set cells)"
proof -
  have occ: "occupied cols rows cells' p ds = occupied cols rows cells p ds" for p ds
    by (simp add: occupied_def in_dict_def assms(1))
  show ?thesis
    by (simp add: next_gen_def assms occ fun_eq_iff split: option.split)
qed

lemma in_dict_filter:
  "in_dict k (filter (\<lambda>(k', c). k' \<noteq> q) cells) \<longleftrightarrow> in_dict k cells \<and> k \<noteq> q"
  by (induction cells) (auto simp: in_dict_def)

lemma occupied_filter:
  "occupied cols rows (filter (\<lambda>(k', c). k' \<noteq> q) cells) p ds
     = int (length (filter (\<lambda>d. neighbor cols rows p d \<noteq> q)
         (filter (\<lambda>d. in_dict (neighbor cols rows p d) cells) ds)))"
  by (simp add: occupied_def in_dict_filter)

lemma cache_inv_empty: "cache_inv cells []"
  by (simp add: cache_inv_def)

lemma check_neighbors_loop_append:
  "check_neighbors_loop cols rows cell cells (ds1 @ ds2) st =
     (case check_neighbors_loop cols rows cell cells ds1 st of
        Inl e \<Rightarrow> Inl e
      | Inr st' \<Rightarrow> check_neighbors_loop cols rows cell cells ds2 st')"
proof (induction ds1 arbitrary: st)
  case Nil
  show ?case by simp
next
  case (Cons d ds1)
  obtain n births proc where st: "st = (n, births, proc)"
    by (cases st)
  show ?case
    unfolding st by (simp add: Cons.IH split: sum.split option.split)
qed

lemma compute_life_loop_append:
  "compute_life_loop cols rows cells g (cs1 @ cs2) st =
     (case compute_life_loop cols rows cells g cs1 st of
        Inl e \<Rightarrow> Inl e
      | Inr st' \<Rightarrow> compute_life_loop cols rows cells g cs2 st')"
proof (induction cs1 arbitrary: st)
  case Nil
  show ?case by simp
next
  case (Cons kc cs1)
  obtain k c where kc: "kc = (k, c)" by (cases kc)
  obtain proc out where st: "st = (proc, out)" by (cases st)
  show ?case
    unfolding st kc by (simp add: Cons.IH split: sum.split prod.split)
qed

lemma compute_life_loop_cache:
  assumes dims: "cols \<noteq> 1" "rows \<noteq> 1"
  shows "cache_inv cells proc \<Longrightarrow>
         \<exists>proc' out'.
           compute_life_loop cols rows cells g cs (proc, out) = Inr (proc', out')
         \<and> cache_inv cells proc' \<and> suffix proc proc'"
proof (induction cs arbitrary: proc out)
  case Nil
  then show ?case by simp
next
  case (Cons kc cs)
  obtain k c where kc: "kc = (k, c)" by (cases kc)
  from check_neighbors_spec [OF dims Cons.prems, of c]
  obtain births proc1 where
    run: "check_neighbors cols rows c cells proc
            = Inr (occupied cols rows cells (pos c) dirs, births, proc1)"
    and ci: "cache_inv cells proc1"
    and suf: "suffix proc proc1"
    by (elim exE conjE) (rule that)
  let ?out = "add_births g births
     (if occupied cols rows cells (pos c) dirs = 2 \<or> occupied cols rows cells (pos c) dirs = 3
      then dict_set (pos c) c out else out)"
  from Cons.IH [OF ci, of ?out]
  obtain proc' out' where
    rest: "compute_life_loop cols rows cells g cs (proc1, ?out) = Inr (proc', out')"
    and ci': "cache_inv cells proc'"
    and suf': "suffix proc1 proc'"
    by (elim exE conjE) (rule that)
  have "compute_life_loop cols rows cells g (kc # cs) (proc, out) = Inr (proc', out')"
    using run rest by (simp add: kc)
  moreover have "suffix proc proc'"
    using suf suf' by (rule suffix_order.trans)
  ultimately show ?case using ci' by simp
qed

lemma small_mod:
  fixes W :: int
  assumes "5 \<le> W"
  shows "0 mod W = 0" "1 mod W = 1" "2 mod W = 2" "3 mod W = 3" "4 mod W = 4"
    "(- 1) mod W = W - 1" "(- 2) mod W = W - 2"
  using assms mod_pos_pos_trivial [of "W - 2" W] by (simp_all add: zmod_minus1)

lemma blinker_first_step:
  assumes "5 \<le> W" and "5 \<le> H"
  shows "compute_life (W + 1) (H + 1) (blinker g0 g1 g2) g =
     Inr [(Point 1 (H - 1), Cell (Point 1 (H - 1)) (g + 1)),
          (Point 1 1, Cell (Point 1 1) (g + 1)),
          (Point 1 0, Cell (Point 1 0) g1)]"
  using assms by (simp add: eval_defs small_mod)

lemma blinker_second_step:
  assumes "5 \<le> W" and "5 \<le> H"
  shows "compute_life (W + 1) (H + 1)
           [(Point 1 (H - 1), Cell (Point 1 (H - 1)) (g + 1)),
            (Point 1 1, Cell (Point 1 1) (g + 1)),
            (Point 1 0, Cell (Point 1 0) g1)] (g + 1) =
     Inr [(Point 0 0, Cell (Point 0 0) (g + 2)),
          (Point 2 0, Cell (Point 2 0) (g + 2)),
          (Point 1 0, Cell (Point 1 0) g1)]"
  using assms by (simp add: eval_defs small_mod)

lemma moore_offsets_dirs: "moore_offsets = dirs"
  by (simp add: moore_offsets_def dirs_def)

lemma toroidal_count_occupied:
  "toroidal_count (cols - 1) (rows - 1) cells p = occupied cols rows cells p dirs"
  by (simp add: toroidal_count_def occupied_def neighbor_def moore_offsets_dirs split_def)

lemma align_point_fixed_iff:
  assumes "cols \<noteq> 1" and "rows \<noteq> 1"
  shows "align_point cols rows p = Inr p \<longleftrightarrow>
           point_x p mod (cols - 1) = point_x p \<and> point_y p mod (rows - 1) = point_y p"
  using assms by (cases p) (simp add: align_point_def)

lemma neighbor_wrap_screen:
  "2 \<le> cols \<Longrightarrow> 2 \<le> rows \<Longrightarrow>
   neighbor cols rows (Point 0 0) (- 1, - 1) = Point (cols - 2) (rows - 2)"
  by (simp add: neighbor_def zmod_minus1)

lemma blinker_first_step5:
  assumes "5 \<le> H"
  shows "compute_life 5 (H + 1) (blinker g0 g1 g2) g =
     Inr [(Point 1 (H - 1), Cell (Point 1 (H - 1)) (g + 1)),
          (Point 1 1, Cell (Point 1 1) (g + 1)),
          (Point 1 0, Cell (Point 1 0) g1)]"
  using assms by (simp add: eval_defs small_mod)

lemma blinker_first_step_5:
  assumes "5 \<le> W"
  shows "compute_life (W + 1) 5 (blinker g0 g1 g2) g =
     Inr [(Point 1 3, Cell (Point 1 3) (g + 1)),
          (Point 1 1, Cell (Point 1 1) (g + 1)),
          (Point 1 0, Cell (Point 1 0) g1)]"
  using assms by (simp add: eval_defs small_mod)

lemma blinker_first_step_screen:
  assumes "5 \<le> cols" and "5 \<le> rows"
  shows "compute_life cols rows (blinker g0 g1 g2) g =
     Inr [(Point 1 (rows - 2), Cell (Point 1 (rows - 2)) (g + 1)),
          (Point 1 1, Cell (Point 1 1) (g + 1)),
          (Point 1 0, Cell (Point 1 0) g1)]"
proof -
  consider "cols = 5" "rows = 5" | "cols = 5" "6 \<le> rows" | "6 \<le> cols" "rows = 5"
    | "6 \<le> cols" "6 \<le> rows"
    using assms by linarith
  then show ?thesis
  proof cases
    case 1
    then show ?thesis by (simp add: eval_defs)
  next
    case 2
    then have "5 \<le> rows - 1" by simp
    with 2(1) show ?thesis
      using blinker_first_step5 [of "rows - 1" g0 g1 g2 g] by simp
  next
    case 3
    then have "5 \<le> cols - 1" by simp
    with 3(2) show ?thesis
      using blinker_first_step_5 [of "cols - 1" g0 g1 g2 g] by simp
  next
    case 4
    then have "5 \<le> cols - 1" "5 \<le> rows - 1" by simp_all
    then show ?thesis
      using blinker_first_step [of "cols - 1" "rows - 1" g0 g1 g2 g] by simp
  qed
qed

lemma blinker_second_step5:
  assumes "5 \<le> H"
  shows "compute_life 5 (H + 1)
           [(Point 1 (H - 1), Cell (Point 1 (H - 1)) (g + 1)),
            (Point 1 1, Cell (Point 1 1) (g + 1)),
            (Point 1 0, Cell (Point 1 0) g1)] (g + 1) =
     Inr [(Point 0 0, Cell (Point 0 0) (g + 2)),
          (Point 2 0, Cell (Point 2 0) (g + 2)),
          (Point 1 0, Cell (Point 1 0) g1)]"
  using assms by (simp add: eval_defs small_mod)

lemma blinker_second_step_5:
  assumes "5 \<le> W"
  shows "compute_life (W + 1) 5
           [(Point 1 3, Cell (Point 1 3) (g + 1)),
            (Point 1 1, Cell (Point 1 1) (g + 1)),
            (Point 1 0, Cell (Point 1 0) g1)] (g + 1) =
     Inr [(Point 0 0, Cell (Point 0 0) (g + 2)),
          (Point 2 0, Cell (Point 2 0) (g + 2)),
          (Point 1 0, Cell (Point 1 0) g1)]"
  using assms by (simp add: eval_defs small_mod)

lemma blinker_second_step_screen:
  assumes "5 \<le> cols" and "5 \<le> rows"
  shows "compute_life cols rows
           [(Point 1 (rows - 2), Cell (Point 1 (rows - 2)) (g + 1)),
            (Point 1 1, Cell (Point 1 1) (g + 1)),
            (Point 1 0, Cell (Point 1 0) g1)] (g + 1) =
     Inr [(Point 0 0, Cell (Point 0 0) (g + 2)),
          (Point 2 0, Cell (Point 2 0) (g + 2)),
          (Point 1 0, Cell (Point 1 0) g1)]"
proof -
  consider "cols = 5" "rows = 5" | "cols = 5" "6 \<le> rows" | "6 \<le> cols" "rows = 5"
    | "6 \<le> cols" "6 \<le> rows"
    using assms by linarith
  then show ?thesis
  proof cases
    case 1
    then show ?thesis by (simp add: eval_defs)
  next
    case 2
    then have "5 \<le> rows - 1" by simp
    with 2(1) show ?thesis
      using blinker_second_step5 [of "rows - 1" g g1] by simp
  next
    case 3
    then have "5 \<le> cols - 1" by simp
    with 3(2) show ?thesis
      using blinker_second_step_5 [of "cols - 1" g g1] by simp
  next
    case 4
    then have "5 \<le> cols - 1" "5 \<le> rows - 1" by simp_all
    then show ?thesis
      using blinker_second_step [of "cols - 1" "rows - 1" g g1] by simp
  qed
qed

section \<open>The rule of Life\<close>

text \<open>
  Claim C1. The torus \<open>align_point\<close> wraps on has width \<open>cols - 1\<close> and height
  \<open>rows - 1\<close>. For a population stored under its cells' own positions, and
  \<open>cols\<close>, \<open>rows\<close> other than 1, \<open>compute_life\<close> returns a population that holds a
  position \<open>p\<close> exactly when the rule of Life on that torus says so, with the
  neighbours counted by \<open>toroidal_count\<close> (the 8 offsets, each reduced by the
  mathematical modulo): \<open>p\<close> is a key of the input with 2 or 3 occupied neighbours, or
  \<open>p\<close> is a position of the torus (each coordinate is its own residue) that is not a
  key of the input and has exactly 3 occupied neighbours. So a dead position with 2, or
  with 4 or more, occupied neighbours stays absent.
\<close>

theorem compute_life_toroidal_rule:
  assumes "cols \<noteq> 1" and "rows \<noteq> 1" and "wf_cells cells"
  shows "\<exists>out.
           compute_life cols rows cells g = Inr out
         \<and> (\<forall>p. in_dict p out \<longleftrightarrow>
               (in_dict p cells
                  \<and> (toroidal_count (cols - 1) (rows - 1) cells p = 2
                       \<or> toroidal_count (cols - 1) (rows - 1) cells p = 3))
               \<or> (\<not> in_dict p cells
                    \<and> point_x p mod (cols - 1) = point_x p
                    \<and> point_y p mod (rows - 1) = point_y p
                    \<and> toroidal_count (cols - 1) (rows - 1) cells p = 3))"
proof -
  from compute_life_spec [OF assms, of g]
  obtain out where run: "compute_life cols rows cells g = Inr out"
    and m: "\<forall>p. map_of out p =
               (case map_of cells p of
                  Some c \<Rightarrow> if occupied cols rows cells p dirs \<in> {2, 3} then Some c else None
                | None \<Rightarrow>
                    if align_point cols rows p = Inr p \<and> occupied cols rows cells p dirs = 3
                    then Some (Cell p (g + 1)) else None)"
    by (elim exE conjE) (rule that)
  have "in_dict p out \<longleftrightarrow>
               (in_dict p cells
                  \<and> (toroidal_count (cols - 1) (rows - 1) cells p = 2
                       \<or> toroidal_count (cols - 1) (rows - 1) cells p = 3))
               \<or> (\<not> in_dict p cells
                    \<and> point_x p mod (cols - 1) = point_x p
                    \<and> point_y p mod (rows - 1) = point_y p
                    \<and> toroidal_count (cols - 1) (rows - 1) cells p = 3)" for p
    using m [rule_format, of p]
    by (cases "map_of cells p")
       (simp_all add: in_dict_def toroidal_count_occupied
          align_point_fixed_iff [OF assms(1,2)])
  with run show ?thesis by simp
qed

theorem compute_life_toroidal_rule_witness:
  "wf_cells (blinker 0 0 0)
   \<and> toroidal_count (6 - 1) (6 - 1) (blinker 0 0 0) (Point 1 4) = 3
   \<and> (\<exists>out. compute_life 6 6 (blinker 0 0 0) 0 = Inr out
          \<and> in_dict (Point 1 4) out \<and> in_dict (Point 1 0) out
          \<and> \<not> in_dict (Point 0 0) out \<and> \<not> in_dict (Point 1 (- 1)) out)"
proof -
  have d: "(6::int) \<noteq> 1" by simp
  from compute_life_toroidal_rule [OF d d blinker_wf, of 0 0 0 0]
  obtain out where run: "compute_life 6 6 (blinker 0 0 0) 0 = Inr out"
    and r: "\<forall>p. in_dict p out \<longleftrightarrow>
               (in_dict p (blinker 0 0 0)
                  \<and> (toroidal_count (6 - 1) (6 - 1) (blinker 0 0 0) p = 2
                       \<or> toroidal_count (6 - 1) (6 - 1) (blinker 0 0 0) p = 3))
               \<or> (\<not> in_dict p (blinker 0 0 0)
                    \<and> point_x p mod (6 - 1) = point_x p
                    \<and> point_y p mod (6 - 1) = point_y p
                    \<and> toroidal_count (6 - 1) (6 - 1) (blinker 0 0 0) p = 3)"
    by (elim exE conjE) (rule that)
  note ev = toroidal_count_def moore_offsets_def in_dict_def blinker_def
  have c: "toroidal_count (6 - 1) (6 - 1) (blinker 0 0 0) (Point 1 4) = 3"
    by (simp add: ev)
  have "in_dict (Point 1 4) out"
    unfolding r [rule_format] by (simp add: ev)
  moreover have "in_dict (Point 1 0) out"
    unfolding r [rule_format] by (simp add: ev)
  moreover have "\<not> in_dict (Point 0 0) out"
    unfolding r [rule_format] by (simp add: ev)
  moreover have "\<not> in_dict (Point 1 (- 1)) out"
    unfolding r [rule_format] by (simp add: ev)
  ultimately show ?thesis using run blinker_wf c by simp
qed

text \<open>
  Claim C5. The returned population has no position twice, and its entries are exactly
  the input entries with 2 or 3 occupied neighbours, carried over with the same
  \<open>Cell\<close> value, and, for every dead position of the domain with exactly 3 occupied
  neighbours, a new \<open>Cell\<close> at that position with generation \<open>g + 1\<close>.
\<close>

theorem compute_life_survivors_and_births:
  assumes "cols \<noteq> 1" and "rows \<noteq> 1" and "wf_cells cells"
  shows "\<exists>out.
           compute_life cols rows cells g = Inr out
         \<and> distinct (map fst out)
         \<and> (\<forall>p c. (p, c) \<in> set out \<longleftrightarrow>
               ((p, c) \<in> set cells
                  \<and> (num_cell_neighbors cols rows p cells = Inr 2
                       \<or> num_cell_neighbors cols rows p cells = Inr 3))
               \<or> (\<not> in_dict p cells \<and> align_point cols rows p = Inr p
                    \<and> num_cell_neighbors cols rows p cells = Inr 3
                    \<and> c = Cell p (g + 1)))"
proof -
  from compute_life_spec [OF assms, of g]
  obtain out where run: "compute_life cols rows cells g = Inr out"
    and d: "distinct (map fst out)"
    and m: "\<forall>p. map_of out p =
               (case map_of cells p of
                  Some c \<Rightarrow> if occupied cols rows cells p dirs \<in> {2, 3} then Some c else None
                | None \<Rightarrow>
                    if align_point cols rows p = Inr p \<and> occupied cols rows cells p dirs = 3
                    then Some (Cell p (g + 1)) else None)"
    by (elim exE conjE) (rule that)
  from assms(3) have dc: "distinct (map fst cells)"
    by (simp add: wf_cells_def)
  have "(p, c) \<in> set out \<longleftrightarrow>
               ((p, c) \<in> set cells
                  \<and> (num_cell_neighbors cols rows p cells = Inr 2
                       \<or> num_cell_neighbors cols rows p cells = Inr 3))
               \<or> (\<not> in_dict p cells \<and> align_point cols rows p = Inr p
                    \<and> num_cell_neighbors cols rows p cells = Inr 3
                    \<and> c = Cell p (g + 1))" for p c
  proof (cases "map_of cells p")
    case None
    then have "(p, c) \<notin> set cells"
      using dc by (metis map_of_eq_Some_iff option.distinct(1))
    with None m [rule_format, of p] show ?thesis
      by (auto simp: map_of_eq_Some_iff [OF d, symmetric] in_dict_def
          num_cell_neighbors_ok [OF assms(1,2)])
  next
    case (Some c')
    then have "(p, c) \<in> set cells \<longleftrightarrow> c = c'"
      using dc by (metis map_of_eq_Some_iff option.inject)
    with Some m [rule_format, of p] show ?thesis
      by (auto simp: map_of_eq_Some_iff [OF d, symmetric] in_dict_def
          num_cell_neighbors_ok [OF assms(1,2)])
  qed
  with run d show ?thesis by simp
qed

theorem compute_life_survivors_and_births_witness:
  "wf_cells (blinker 5 7 9)
   \<and> (\<exists>out. compute_life 6 6 (blinker 5 7 9) 20 = Inr out
          \<and> (Point 1 0, Cell (Point 1 0) 7) \<in> set out
          \<and> (Point 1 4, Cell (Point 1 4) 21) \<in> set out
          \<and> (Point 0 0, Cell (Point 0 0) 5) \<notin> set out)"
proof -
  have d: "(6::int) \<noteq> 1" by simp
  from compute_life_survivors_and_births [OF d d blinker_wf, of 5 7 9 20]
  obtain out where run: "compute_life 6 6 (blinker 5 7 9) 20 = Inr out"
    and r: "\<forall>p c. (p, c) \<in> set out \<longleftrightarrow>
               ((p, c) \<in> set (blinker 5 7 9)
                  \<and> (num_cell_neighbors 6 6 p (blinker 5 7 9) = Inr 2
                       \<or> num_cell_neighbors 6 6 p (blinker 5 7 9) = Inr 3))
               \<or> (\<not> in_dict p (blinker 5 7 9) \<and> align_point 6 6 p = Inr p
                    \<and> num_cell_neighbors 6 6 p (blinker 5 7 9) = Inr 3
                    \<and> c = Cell p (20 + 1))"
    by (elim exE conjE) (rule that)
  have "(Point 1 0, Cell (Point 1 0) 7) \<in> set out"
    unfolding r [rule_format] by (simp add: eval_defs)
  moreover have "(Point 1 4, Cell (Point 1 4) 21) \<in> set out"
    unfolding r [rule_format] by (simp add: eval_defs)
  moreover have "(Point 0 0, Cell (Point 0 0) 5) \<notin> set out"
    unfolding r [rule_format] by (simp add: eval_defs)
  ultimately show ?thesis using run blinker_wf by simp
qed

text \<open>
  Claim C10. Every key of the returned population is a key of the input or the
  \<open>align_point\<close> image of a key of the input moved by one of the 8 directions.
\<close>

theorem compute_life_local:
  assumes "cols \<noteq> 1" and "rows \<noteq> 1" and "wf_cells cells"
  shows "\<exists>out.
           compute_life cols rows cells g = Inr out
         \<and> (\<forall>p. in_dict p out \<longrightarrow>
               in_dict p cells
               \<or> (\<exists>k d. in_dict k cells \<and> d \<in> set dirs
                     \<and> align_point cols rows (add_dir k d) = Inr p))"
proof -
  from compute_life_run [OF assms, of g]
  obtain proc :: proc and out where run: "compute_life cols rows cells g = Inr out"
    and m: "map_of out = next_gen cols rows cells g (set cells)"
    by (elim exE conjE) (rule that)
  have "in_dict p cells
          \<or> (\<exists>k d. in_dict k cells \<and> d \<in> set dirs
                \<and> align_point cols rows (add_dir k d) = Inr p)"
    if "in_dict p out" for p
  proof (cases "map_of cells p")
    case None
    from that have "next_gen cols rows cells g (set cells) p \<noteq> None"
      by (simp add: in_dict_def m)
    with None have "p \<in> vicinity cols rows (set cells)"
      by (simp add: next_gen_def split: if_splits)
    then obtain k c d where "p = neighbor cols rows k d" "(k, c) \<in> set cells" "d \<in> set dirs"
      unfolding vicinity_def by fast
    then have "in_dict k cells \<and> d \<in> set dirs
                \<and> align_point cols rows (add_dir k d) = Inr p"
      by (simp add: in_dict_iff align_point_ok [OF assms(1,2)] image_iff) force
    then show ?thesis by fast
  next
    case (Some c)
    then show ?thesis by (simp add: in_dict_def)
  qed
  with run show ?thesis by simp
qed

theorem compute_life_local_witness:
  "wf_cells (blinker 0 0 0)
   \<and> compute_life 6 6 (blinker 0 0 0) 0 =
       Inr [(Point 1 4, Cell (Point 1 4) 1), (Point 1 1, Cell (Point 1 1) 1),
            (Point 1 0, Cell (Point 1 0) 0)]
   \<and> (in_dict (Point 1 4) (blinker 0 0 0)
        \<or> (\<exists>k d. in_dict k (blinker 0 0 0) \<and> d \<in> set dirs
              \<and> align_point 6 6 (add_dir k d) = Inr (Point 1 4)))"
proof -
  have d: "(6::int) \<noteq> 1" by simp
  from compute_life_local [OF d d blinker_wf, of 0 0 0 0]
  have "in_dict (Point 1 4) [(Point 1 4, Cell (Point 1 4) 1), (Point 1 1, Cell (Point 1 1) 1),
            (Point 1 0, Cell (Point 1 0) 0)] \<longrightarrow>
        in_dict (Point 1 4) (blinker 0 0 0)
        \<or> (\<exists>k d. in_dict k (blinker 0 0 0) \<and> d \<in> set dirs
              \<and> align_point 6 6 (add_dir k d) = Inr (Point 1 4))"
    unfolding blinker_step_6 [of 0 0 0 0, simplified] by simp
  then show ?thesis
    using blinker_wf blinker_step_6 [of 0 0 0 0] by (simp add: in_dict_def)
qed

text \<open>
  Claim C4. Two insertion orders of the same population (the same entries, each a dict
  of cells stored under their own positions) give the same result: either both calls
  raise \<open>ZeroDivisionError\<close>, or both return, and the returned dicts hold the same
  entries and are the same mapping. (As a function of its arguments \<open>compute_life\<close>
  is deterministic.)
\<close>

theorem compute_life_order_independent:
  assumes "wf_cells cells" and "wf_cells cells'" and "set cells' = set cells"
  shows "(compute_life cols rows cells g = Inl ZeroDivisionError
            \<and> compute_life cols rows cells' g = Inl ZeroDivisionError)
         \<or> (\<exists>out out'. compute_life cols rows cells g = Inr out
               \<and> compute_life cols rows cells' g = Inr out'
               \<and> map_of out' = map_of out \<and> set out' = set out)"
proof (cases "cols = 1 \<or> rows = 1")
  case True
  show ?thesis
  proof (cases "cells = []")
    case True
    with assms(3) have "cells' = []" by simp
    with True show ?thesis by (simp add: compute_life_def)
  next
    case False
    with assms(3) have "cells' \<noteq> []" by auto
    with False True show ?thesis
      by (simp add: compute_life_zero_division)
  qed
next
  case False
  then have dims: "cols \<noteq> 1" "rows \<noteq> 1" by simp_all
  from compute_life_run [OF dims assms(1), of g]
  obtain proc :: proc and out where run: "compute_life cols rows cells g = Inr out"
    and d: "distinct (map fst out)"
    and m: "map_of out = next_gen cols rows cells g (set cells)"
    by (elim exE conjE) (rule that)
  from compute_life_run [OF dims assms(2), of g]
  obtain proc' :: proc and out' where run': "compute_life cols rows cells' g = Inr out'"
    and d': "distinct (map fst out')"
    and m': "map_of out' = next_gen cols rows cells' g (set cells')"
    by (elim exE conjE) (rule that)
  from assms have dc: "distinct (map fst cells)" and dc': "distinct (map fst cells')"
    by (simp_all add: wf_cells_def)
  have "map_of cells' = map_of cells"
    using map_of_inject_set [OF dc' dc] assms(3) by (rule iffD2)
  then have "next_gen cols rows cells' g (set cells') = next_gen cols rows cells g (set cells)"
    using assms(3) by (rule next_gen_cong)
  then have eq: "map_of out' = map_of out"
    unfolding m m' .
  have "set out' = set out"
    using map_of_inject_set [OF d' d] eq by (rule iffD1)
  with run run' eq show ?thesis by simp
qed

theorem compute_life_order_independent_witness:
  "wf_cells (blinker 1 2 3) \<and> wf_cells (rotate1 (blinker 1 2 3))
   \<and> set (rotate1 (blinker 1 2 3)) = set (blinker 1 2 3)
   \<and> (\<exists>out out'. compute_life 6 6 (blinker 1 2 3) 4 = Inr out
          \<and> compute_life 6 6 (rotate1 (blinker 1 2 3)) 4 = Inr out'
          \<and> map_of out' = map_of out \<and> set out' = set out)"
proof -
  have wf': "wf_cells (rotate1 (blinker 1 2 3))"
    by (simp add: blinker_def wf_cells_def)
  have s: "set (rotate1 (blinker 1 2 3)) = set (blinker 1 2 3)"
    by simp
  have "compute_life 6 6 (blinker 1 2 3) 4 \<noteq> Inl ZeroDivisionError"
    by (simp add: blinker_step_6)
  with compute_life_order_independent [OF blinker_wf wf' s, of 6 6 4]
  show ?thesis using blinker_wf wf' s by simp
qed

section \<open>The last column and the last row\<close>

text \<open>
  Claim C9. With \<open>cols \<ge> 2\<close> and \<open>rows \<ge> 2\<close>, \<open>align_point\<close> returns, for every
  integer point, coordinates in \<open>[0, cols - 1) \<times> [0, rows - 1)\<close>: never the
  x-coordinate \<open>cols - 1\<close> nor the y-coordinate \<open>rows - 1\<close>. Hence every position born
  in \<open>compute_life\<close> (a key of the result that is no key of the input) lies outside the
  last column and the last row.
\<close>

theorem align_point_never_last:
  assumes "2 \<le> cols" and "2 \<le> rows"
  shows "(\<exists>q. align_point cols rows p = Inr q
            \<and> 0 \<le> point_x q \<and> point_x q < cols - 1 \<and> 0 \<le> point_y q \<and> point_y q < rows - 1
            \<and> point_x q \<noteq> cols - 1 \<and> point_y q \<noteq> rows - 1)
         \<and> (wf_cells cells \<longrightarrow>
              (\<exists>out. compute_life cols rows cells g = Inr out
                 \<and> (\<forall>b. in_dict b out \<and> \<not> in_dict b cells \<longrightarrow>
                        0 \<le> point_x b \<and> point_x b < cols - 1
                      \<and> 0 \<le> point_y b \<and> point_y b < rows - 1
                      \<and> point_x b \<noteq> cols - 1 \<and> point_y b \<noteq> rows - 1)))"
proof (intro conjI impI)
  show "\<exists>q. align_point cols rows p = Inr q
            \<and> 0 \<le> point_x q \<and> point_x q < cols - 1 \<and> 0 \<le> point_y q \<and> point_y q < rows - 1
            \<and> point_x q \<noteq> cols - 1 \<and> point_y q \<noteq> rows - 1"
  proof -
    have "point_x p mod (cols - 1) < cols - 1" "point_y p mod (rows - 1) < rows - 1"
      using assms by simp_all
    then have "point_x p mod (cols - 1) \<noteq> cols - 1" "point_y p mod (rows - 1) \<noteq> rows - 1"
      by linarith+
    then show ?thesis
      using assms by (simp add: align_point_def)
  qed
next
  assume wf: "wf_cells cells"
  from assms have dims: "cols \<noteq> 1" "rows \<noteq> 1" by simp_all
  from compute_life_spec [OF dims wf, of g]
  obtain out where run: "compute_life cols rows cells g = Inr out"
    and m: "\<forall>p. map_of out p =
               (case map_of cells p of
                  Some c \<Rightarrow> if occupied cols rows cells p dirs \<in> {2, 3} then Some c else None
                | None \<Rightarrow>
                    if align_point cols rows p = Inr p \<and> occupied cols rows cells p dirs = 3
                    then Some (Cell p (g + 1)) else None)"
    by (elim exE conjE) (rule that)
  have "0 \<le> point_x b \<and> point_x b < cols - 1
          \<and> 0 \<le> point_y b \<and> point_y b < rows - 1
          \<and> point_x b \<noteq> cols - 1 \<and> point_y b \<noteq> rows - 1"
    if "in_dict b out \<and> \<not> in_dict b cells" for b
  proof -
    from that have n: "map_of cells b = None" and o: "map_of out b \<noteq> None"
      by (simp_all add: in_dict_def)
    from m [rule_format, of b] o have "align_point cols rows b = Inr b"
      unfolding n by (simp split: if_splits)
    then have eq: "Point (point_x b mod (cols - 1)) (point_y b mod (rows - 1)) = b"
      using dims by (simp add: align_point_def)
    have xe: "point_x b mod (cols - 1) = point_x b"
      using arg_cong [OF eq, of point_x] by simp
    have ye: "point_y b mod (rows - 1) = point_y b"
      using arg_cong [OF eq, of point_y] by simp
    have "0 \<le> point_x b mod (cols - 1)" "point_x b mod (cols - 1) < cols - 1"
      "0 \<le> point_y b mod (rows - 1)" "point_y b mod (rows - 1) < rows - 1"
      using assms by simp_all
    then have "0 \<le> point_x b \<and> point_x b < cols - 1 \<and> 0 \<le> point_y b \<and> point_y b < rows - 1"
      unfolding xe ye by (intro conjI)
    then show ?thesis by simp
  qed
  with run show "\<exists>out. compute_life cols rows cells g = Inr out
                 \<and> (\<forall>b. in_dict b out \<and> \<not> in_dict b cells \<longrightarrow>
                        0 \<le> point_x b \<and> point_x b < cols - 1
                      \<and> 0 \<le> point_y b \<and> point_y b < rows - 1
                      \<and> point_x b \<noteq> cols - 1 \<and> point_y b \<noteq> rows - 1)"
    by simp
qed

theorem align_point_never_last_witness:
  "(2::int) \<le> 6 \<and> wf_cells (blinker 0 0 0)
   \<and> (\<exists>q. align_point 6 6 (Point 5 (- 1)) = Inr q \<and> point_x q \<noteq> 5 \<and> point_y q \<noteq> 5)
   \<and> (\<exists>out. compute_life 6 6 (blinker 0 0 0) 0 = Inr out
          \<and> in_dict (Point 1 4) out \<and> \<not> in_dict (Point 1 4) (blinker 0 0 0))"
proof -
  have d: "(2::int) \<le> 6" by simp
  from align_point_never_last [OF d d, of "Point 5 (- 1)" "blinker 0 0 0" 0]
  have "\<exists>q. align_point 6 6 (Point 5 (- 1)) = Inr q \<and> point_x q \<noteq> 5 \<and> point_y q \<noteq> 5"
    by (elim conjE exE) simp
  moreover have "in_dict (Point 1 4) [(Point 1 4, Cell (Point 1 4) 1),
      (Point 1 1, Cell (Point 1 1) 1), (Point 1 0, Cell (Point 1 0) 0)]"
    "\<not> in_dict (Point 1 4) (blinker 0 0 0)"
    by (simp_all add: in_dict_def blinker_def)
  ultimately show ?thesis
    using blinker_wf blinker_step_6 [of 0 0 0 0] by simp
qed

section \<open>Wraparound\<close>

text \<open>
  Claim C3, as the claim states it, fails: on a 5 by 5 grid (\<open>cols = rows = 5\<close>) with
  living cells at \<open>(0,0)\<close> and \<open>(4,4)\<close>, the count for \<open>(0,0)\<close> is 0, both from
  \<open>num_cell_neighbors\<close> and from \<open>check_neighbors\<close>, whose cache shows the 8 positions
  looked up: \<open>(4,4)\<close> is not among them.
\<close>

theorem diagonal_grid_counterexample:
  "num_cell_neighbors 5 5 (Point 0 0)
     [(Point 0 0, Cell (Point 0 0) 0), (Point (5 - 1) (5 - 1), Cell (Point (5 - 1) (5 - 1)) 0)]
     = Inr 0
   \<and> check_neighbors 5 5 (Cell (Point 0 0) 0)
       [(Point 0 0, Cell (Point 0 0) 0), (Point (5 - 1) (5 - 1), Cell (Point (5 - 1) (5 - 1)) 0)]
       [] =
     Inr (0, [],
       [(Point 1 1, False), (Point 1 0, False), (Point 1 3, False), (Point 0 1, False),
        (Point 0 3, False), (Point 3 1, False), (Point 3 0, False), (Point 3 3, False)])"
  by (simp add: num_cell_neighbors_def check_neighbors_def dirs_def align_point_def
      add_dir_def in_dict_def)

text \<open>
  Claim C3, amended. \<open>align_point\<close> wraps modulo \<open>cols - 1\<close> and \<open>rows - 1\<close>, so for
  \<open>cols, rows \<ge> 2\<close> the direction \<open>(-1,-1)\<close> takes \<open>(0,0)\<close> to
  \<open>(cols - 2, rows - 2)\<close>. When that position is a key of the population, the count for
  \<open>(0,0)\<close>, both the one \<open>num_cell_neighbors\<close> returns and the one \<open>check_neighbors\<close>
  returns for a living cell at \<open>(0,0)\<close>, is at least 1 and strictly greater than the
  count in the population without that key: the cell is included in the total.
\<close>

theorem wraparound_neighbor_counted:
  assumes "2 \<le> cols" and "2 \<le> rows" and "in_dict (Point (cols - 2) (rows - 2)) cells"
  shows "align_point cols rows (add_dir (Point 0 0) (- 1, - 1)) = Inr (Point (cols - 2) (rows - 2))
       \<and> (- 1, - 1) \<in> set dirs
       \<and> (\<exists>n m births proc'.
            num_cell_neighbors cols rows (Point 0 0) cells = Inr n
          \<and> check_neighbors cols rows (Cell (Point 0 0) g0) cells [] = Inr (n, births, proc')
          \<and> num_cell_neighbors cols rows (Point 0 0)
               (filter (\<lambda>(k, c). k \<noteq> Point (cols - 2) (rows - 2)) cells) = Inr m
          \<and> m < n \<and> 1 \<le> n)"
proof -
  from assms have dims: "cols \<noteq> 1" "rows \<noteq> 1" by simp_all
  let ?p = "Point 0 0" and ?q = "Point (cols - 2) (rows - 2)"
  let ?occ = "filter (\<lambda>d. in_dict (neighbor cols rows ?p d) cells) dirs"
  have nb: "neighbor cols rows ?p (- 1, - 1) = ?q"
    using assms(1,2) by (rule neighbor_wrap_screen)
  have al: "align_point cols rows (add_dir ?p (- 1, - 1)) = Inr ?q"
    by (simp add: align_point_ok [OF dims] nb)
  have dm: "(- 1, - 1) \<in> set dirs"
    by (simp add: dirs_def)
  have mem: "(- 1, - 1) \<in> set ?occ"
    using dm assms(3) by (simp add: nb)
  have less: "length (filter (\<lambda>d. neighbor cols rows ?p d \<noteq> ?q) ?occ) < length ?occ"
    using mem by (rule length_filter_less) (simp add: nb)
  have pos: "0 < length ?occ"
    using mem by (metis length_pos_if_in_set)
  from check_neighbors_spec [OF dims cache_inv_empty, where cell = "Cell ?p g0" and cells = cells]
  obtain births proc' where
    cn: "check_neighbors cols rows (Cell ?p g0) cells []
           = Inr (occupied cols rows cells ?p dirs, births, proc')"
    by (elim exE conjE) simp
  have "occupied cols rows (filter (\<lambda>(k, c). k \<noteq> ?q) cells) ?p dirs
          < occupied cols rows cells ?p dirs"
    unfolding occupied_filter using less by (simp add: occupied_def)
  moreover have "1 \<le> occupied cols rows cells ?p dirs"
    unfolding occupied_def using pos by linarith
  ultimately show ?thesis
    using al dm cn by (simp add: num_cell_neighbors_ok [OF dims])
qed

theorem wraparound_neighbor_counted_witness:
  "(2::int) \<le> 5
   \<and> in_dict (Point (5 - 2) (5 - 2)) [(Point 0 0, Cell (Point 0 0) 0), (Point 3 3, Cell (Point 3 3) 0)]
   \<and> num_cell_neighbors 5 5 (Point 0 0)
        [(Point 0 0, Cell (Point 0 0) 0), (Point 3 3, Cell (Point 3 3) 0)] = Inr 1
   \<and> num_cell_neighbors 5 5 (Point 0 0) [(Point 0 0, Cell (Point 0 0) 0)] = Inr 0"
proof -
  have d: "(2::int) \<le> 5" by simp
  have i: "in_dict (Point (5 - 2) (5 - 2))
             [(Point 0 0, Cell (Point 0 0) 0), (Point 3 3, Cell (Point 3 3) 0)]"
    by (simp add: in_dict_def)
  from wraparound_neighbor_counted [OF d d i, of 0]
  obtain n m where
    "num_cell_neighbors 5 5 (Point 0 0)
        [(Point 0 0, Cell (Point 0 0) 0), (Point 3 3, Cell (Point 3 3) 0)] = Inr n"
    "num_cell_neighbors 5 5 (Point 0 0)
        (filter (\<lambda>(k, c). k \<noteq> Point (5 - 2) (5 - 2))
           [(Point 0 0, Cell (Point 0 0) 0), (Point 3 3, Cell (Point 3 3) 0)]) = Inr m"
    "m < n" "1 \<le> n"
    by (elim exE conjE) (rule that)
  then show ?thesis
    using d i by (simp add: num_cell_neighbors_def dirs_def align_point_def add_dir_def in_dict_def)
qed

section \<open>The cache\<close>

text \<open>
  Claim C7. Take any point of one run of \<open>compute_life\<close>: the cells \<open>cs1\<close> have been
  visited, and of the next cell \<open>c\<close> the directions \<open>ds1\<close>. The run reaches that point
  and finishes, and the cache there (\<open>proc2\<close>), the cache before the visit of \<open>c\<close>
  (\<open>proc1\<close>) and the final cache (\<open>procF\<close>) all satisfy the invariant: as lists of
  writes they name no position twice, and every written boolean says whether the
  position is a key of the input population. Each earlier list of writes is a suffix
  of the later ones, so no entry is ever removed or changed.
\<close>

theorem cache_invariant:
  assumes "cols \<noteq> 1" and "rows \<noteq> 1"
    and "cells = cs1 @ (k, c) # cs2" and "dirs = ds1 @ ds2"
  shows "\<exists>proc1 out1 n births proc2 procF outF.
           compute_life_loop cols rows cells g cs1 ([], []) = Inr (proc1, out1)
         \<and> check_neighbors_loop cols rows c cells ds1 (0, [], proc1) = Inr (n, births, proc2)
         \<and> compute_life_loop cols rows cells g cells ([], []) = Inr (procF, outF)
         \<and> cache_inv cells proc1 \<and> cache_inv cells proc2 \<and> cache_inv cells procF
         \<and> suffix proc1 proc2 \<and> suffix proc2 procF"
proof -
  note dims = assms(1,2)
  from compute_life_loop_cache [OF dims cache_inv_empty, of cells g cs1 "[]"]
  obtain proc1 out1 where
    r1: "compute_life_loop cols rows cells g cs1 ([], []) = Inr (proc1, out1)"
    and i1: "cache_inv cells proc1"
    by (elim exE conjE) (rule that)
  from check_neighbors_loop_spec [OF dims i1, of c ds1 0 "[]"]
  obtain n births proc2 where
    r2: "check_neighbors_loop cols rows c cells ds1 (0, [], proc1) = Inr (n, births, proc2)"
    and i2: "cache_inv cells proc2"
    and s2: "suffix proc1 proc2"
    by (elim exE conjE) (rule that)
  from check_neighbors_loop_spec [OF dims i2, of c ds2 n births]
  obtain n3 births3 proc3 where
    r3: "check_neighbors_loop cols rows c cells ds2 (n, births, proc2) = Inr (n3, births3, proc3)"
    and i3: "cache_inv cells proc3"
    and s3: "suffix proc2 proc3"
    by (elim exE conjE) (rule that)
  have r23: "check_neighbors cols rows c cells proc1 = Inr (n3, births3, proc3)"
    by (simp add: check_neighbors_def assms(4) check_neighbors_loop_append r2 r3)
  let ?out = "add_births g births3 (if n3 = 2 \<or> n3 = 3 then dict_set (pos c) c out1 else out1)"
  from compute_life_loop_cache [OF dims i3, of g cs2 ?out]
  obtain procF outF where
    r4: "compute_life_loop cols rows cells g cs2 (proc3, ?out) = Inr (procF, outF)"
    and iF: "cache_inv cells procF"
    and s4: "suffix proc3 procF"
    by (elim exE conjE) (rule that)
  have "compute_life_loop cols rows cells g (cs1 @ (k, c) # cs2) ([], []) = Inr (procF, outF)"
    by (simp add: compute_life_loop_append r1 r23 r4)
  then have rF: "compute_life_loop cols rows cells g cells ([], []) = Inr (procF, outF)"
    using assms(3) by simp
  have sF: "suffix proc2 procF"
    using s3 s4 by (rule suffix_order.trans)
  from r1 r2 rF i1 i2 iF s2 sF show ?thesis by simp
qed

theorem cache_invariant_witness:
  "blinker 0 0 0 =
     [(Point 0 0, Cell (Point 0 0) 0)] @ (Point 1 0, Cell (Point 1 0) 0)
       # [(Point 2 0, Cell (Point 2 0) 0)]
   \<and> dirs = [(- 1, - 1), (- 1, 0), (- 1, 1)] @ [(0, - 1), (0, 1), (1, - 1), (1, 0), (1, 1)]
   \<and> (\<exists>proc1 out1 n births proc2 procF outF.
           compute_life_loop 6 6 (blinker 0 0 0) 0 [(Point 0 0, Cell (Point 0 0) 0)] ([], [])
             = Inr (proc1, out1)
         \<and> check_neighbors_loop 6 6 (Cell (Point 1 0) 0) (blinker 0 0 0)
              [(- 1, - 1), (- 1, 0), (- 1, 1)] (0, [], proc1) = Inr (n, births, proc2)
         \<and> compute_life_loop 6 6 (blinker 0 0 0) 0 (blinker 0 0 0) ([], []) = Inr (procF, outF)
         \<and> cache_inv (blinker 0 0 0) proc1 \<and> cache_inv (blinker 0 0 0) proc2
         \<and> cache_inv (blinker 0 0 0) procF
         \<and> suffix proc1 proc2 \<and> suffix proc2 procF)"
proof -
  have d: "(6::int) \<noteq> 1" by simp
  have a: "blinker 0 0 0 =
     [(Point 0 0, Cell (Point 0 0) 0)] @ (Point 1 0, Cell (Point 1 0) 0)
       # [(Point 2 0, Cell (Point 2 0) 0)]"
    by (simp add: blinker_def)
  have b: "dirs = [(- 1, - 1), (- 1, 0), (- 1, 1)] @ [(0, - 1), (0, 1), (1, - 1), (1, 0), (1, 1)]"
    by (simp add: dirs_def)
  show ?thesis
    by (intro conjI a b cache_invariant [OF d d a b])
qed

section \<open>The blinker\<close>

text \<open>
  Claim C6, as the claim states it, fails: on a 5 by 5 grid (\<open>cols = rows = 5\<close>) the
  position \<open>(1,-1)\<close> reduced modulo the grid's width and height is \<open>(1,4)\<close>, and
  one \<open>compute_life\<close> of the blinker returns cells at \<open>(1,3)\<close>, \<open>(1,1)\<close> and \<open>(1,0)\<close>,
  none at \<open>(1,4)\<close>.
\<close>

theorem blinker_grid_counterexample:
  "compute_life 5 5 (blinker 0 0 0) 0 =
     Inr [(Point 1 3, Cell (Point 1 3) 1), (Point 1 1, Cell (Point 1 1) 1),
          (Point 1 0, Cell (Point 1 0) 0)]
   \<and> Point (1 mod 5) ((- 1) mod 5) = Point 1 4
   \<and> \<not> in_dict (Point (1 mod 5) ((- 1) mod 5))
         [(Point 1 3, Cell (Point 1 3) 1), (Point 1 1, Cell (Point 1 1) 1),
          (Point 1 0, Cell (Point 1 0) 0)]"
  by (simp add: eval_defs)

text \<open>
  Claim C6, amended. For \<open>cols, rows \<ge> 5\<close>, one \<open>compute_life\<close> of the horizontal
  blinker \<open>(0,0), (1,0), (2,0)\<close> returns exactly three cells, at the positions
  \<open>align_point\<close> gives for \<open>(1,-1)\<close>, \<open>(1,0)\<close> and \<open>(1,1)\<close>, which are
  \<open>(1, rows - 2)\<close>, \<open>(1,0)\<close> and \<open>(1,1)\<close>; \<open>compute_life\<close> of that result, with the next
  generation number, returns exactly three cells at the positions of the original
  blinker.
\<close>

theorem blinker_oscillates:
  assumes "5 \<le> cols" and "5 \<le> rows"
  shows "align_point cols rows (Point 1 (- 1)) = Inr (Point 1 (rows - 2))
       \<and> align_point cols rows (Point 1 0) = Inr (Point 1 0)
       \<and> align_point cols rows (Point 1 1) = Inr (Point 1 1)
       \<and> (\<exists>out1 out2.
             compute_life cols rows (blinker g0 g1 g2) g = Inr out1
           \<and> distinct (map fst out1)
           \<and> set (map fst out1) = {Point 1 (rows - 2), Point 1 0, Point 1 1}
           \<and> compute_life cols rows out1 (g + 1) = Inr out2
           \<and> distinct (map fst out2)
           \<and> set (map fst out2) = {Point 0 0, Point 1 0, Point 2 0}
           \<and> set (map fst out2) = set (map fst (blinker g0 g1 g2)))"
proof -
  have al: "align_point cols rows (Point 1 (- 1)) = Inr (Point 1 (rows - 2))"
    "align_point cols rows (Point 1 0) = Inr (Point 1 0)"
    "align_point cols rows (Point 1 1) = Inr (Point 1 1)"
    using assms by (simp_all add: align_point_def zmod_minus1)
  let ?out1 = "[(Point 1 (rows - 2), Cell (Point 1 (rows - 2)) (g + 1)),
                (Point 1 1, Cell (Point 1 1) (g + 1)),
                (Point 1 0, Cell (Point 1 0) g1)]"
  let ?out2 = "[(Point 0 0, Cell (Point 0 0) (g + 2)),
                (Point 2 0, Cell (Point 2 0) (g + 2)),
                (Point 1 0, Cell (Point 1 0) g1)]"
  have d1: "distinct (map fst ?out1)"
    using assms(2) by simp
  have s1: "set (map fst ?out1) = {Point 1 (rows - 2), Point 1 0, Point 1 1}"
    by auto
  have d2: "distinct (map fst ?out2)"
    by simp
  have s2: "set (map fst ?out2) = {Point 0 0, Point 1 0, Point 2 0}"
    by auto
  have s3: "set (map fst ?out2) = set (map fst (blinker g0 g1 g2))"
    by (auto simp: blinker_def)
  from blinker_first_step_screen [OF assms, of g0 g1 g2 g]
    blinker_second_step_screen [OF assms, of g g1] d1 s1 d2 s2 s3
  have "\<exists>out1 out2.
             compute_life cols rows (blinker g0 g1 g2) g = Inr out1
           \<and> distinct (map fst out1)
           \<and> set (map fst out1) = {Point 1 (rows - 2), Point 1 0, Point 1 1}
           \<and> compute_life cols rows out1 (g + 1) = Inr out2
           \<and> distinct (map fst out2)
           \<and> set (map fst out2) = {Point 0 0, Point 1 0, Point 2 0}
           \<and> set (map fst out2) = set (map fst (blinker g0 g1 g2))"
    by (intro exI [of _ ?out1] exI [of _ ?out2] conjI)
  with al show ?thesis by (intro conjI)
qed

theorem blinker_oscillates_witness:
  "(5::int) \<le> 5
   \<and> align_point 5 5 (Point 1 (- 1)) = Inr (Point 1 3)
   \<and> align_point 5 5 (Point 1 0) = Inr (Point 1 0)
   \<and> align_point 5 5 (Point 1 1) = Inr (Point 1 1)
   \<and> (\<exists>out1 out2.
         compute_life 5 5 (blinker 0 0 0) 0 = Inr out1
       \<and> distinct (map fst out1)
       \<and> set (map fst out1) = {Point 1 3, Point 1 0, Point 1 1}
       \<and> compute_life 5 5 out1 1 = Inr out2
       \<and> distinct (map fst out2)
       \<and> set (map fst out2) = {Point 0 0, Point 1 0, Point 2 0}
       \<and> set (map fst out2) = set (map fst (blinker 0 0 0)))"
proof -
  have d: "(5::int) \<le> 5" by simp
  from blinker_oscillates [OF d d, of 0 0 0 0]
  show ?thesis by simp
qed

section \<open>Normalisation\<close>

text \<open>
  Claim C2, as the claim states it, fails: on a 10 by 10 grid (\<open>cols = rows = 10\<close>)
  \<open>align_point\<close> sends \<open>(-1,-1)\<close> to \<open>(8,8)\<close>, not \<open>(9,9)\<close>, and with the positive
  dimensions \<open>cols = rows = 1\<close> it raises.
\<close>

theorem align_point_grid_counterexample:
  "align_point 10 10 (Point (- 1) (- 1)) = Inr (Point 8 8)
   \<and> align_point 10 10 (Point (- 1) (- 1)) \<noteq> Inr (Point 9 9)
   \<and> align_point 1 1 (Point 0 0) = Inl ZeroDivisionError"
  by (simp add: align_point_def)

text \<open>
  Claim C2, amended. \<open>align_point\<close> reduces modulo \<open>cols - 1\<close> and \<open>rows - 1\<close>. For
  \<open>cols, rows \<ge> 2\<close> and every integer point, negative coordinates included,
  it returns a point that it maps to itself and whose coordinates lie in
  \<open>[0, cols - 1) \<times> [0, rows - 1)\<close>; it sends \<open>(-1,-1)\<close> to \<open>(8,8)\<close> when
  \<open>cols = rows = 10\<close>, and to \<open>(9,9)\<close> when \<open>cols = rows = 11\<close>.
\<close>

theorem align_point_idempotent_in_range:
  "(2 \<le> cols \<and> 2 \<le> rows \<longrightarrow>
      (\<exists>q. align_point cols rows p = Inr q
         \<and> align_point cols rows q = Inr q
         \<and> 0 \<le> point_x q \<and> point_x q < cols - 1
         \<and> 0 \<le> point_y q \<and> point_y q < rows - 1))
   \<and> align_point 10 10 (Point (- 1) (- 1)) = Inr (Point 8 8)
   \<and> align_point 11 11 (Point (- 1) (- 1)) = Inr (Point 9 9)"
  by (simp add: align_point_def)

theorem align_point_idempotent_in_range_witness:
  "(2::int) \<le> 8 \<and> (2::int) \<le> 5
   \<and> align_point 8 5 (Point (- 9) 13) = Inr (Point 5 1)
   \<and> align_point 8 5 (Point 5 1) = Inr (Point 5 1)"
  using align_point_idempotent_in_range [of 8 5 "Point (- 9) 13"]
  by (simp add: align_point_def)

section \<open>The empty population\<close>

text \<open>
  Claim C8. Whatever the dimensions and the generation number, \<open>compute_life\<close> on the
  empty population returns the empty population (and raises nothing, since no point
  is ever aligned).
\<close>

theorem compute_life_empty: "compute_life cols rows [] generation = Inr []"
  by (simp add: compute_life_def)

end
